theory Spec2Isabelle
  imports Main "HOL-Library.Word"
begin

unbundle bit_operations_syntax

section \<open>Data model\<close>

type_synonym u8 = "8 word"
type_synonym u16 = "16 word"
type_synonym u32 = "32 word"
type_synonym u64 = "64 word"

text \<open>
  \<^verbatim>\<open>struct libsrng_stable_random_state { uint32_t shift; uint8_t carry; uint8_t current;
  uint8_t prev; uint8_t linear; };\<close>
\<close>

record libsrng_stable_random_state =
  shift :: u32
  carry :: u8
  current :: u8
  prev :: u8
  linear :: u8

section \<open>The byte generator: \<^verbatim>\<open>libsrng_stable_random\<close>\<close>

text \<open>
  \<^verbatim>\<open>#define STABLE_RANDOM_NEXT_LINEAR(s) ((s) -> linear *= 73, (s) -> linear += 29, (s) -> linear)\<close>
  The macro updates the field; its value is the field \<open>linear\<close> of the updated state.
\<close>

definition STABLE_RANDOM_NEXT_LINEAR ::
  "libsrng_stable_random_state \<Rightarrow> libsrng_stable_random_state" where
  "STABLE_RANDOM_NEXT_LINEAR s = s\<lparr>linear := linear s * 73 + 29\<rparr>"

definition cycle_start_points :: "u8 list" where
  "cycle_start_points = [1, 2, 4, 8, 13, 17, 23, 26, 29, 58, 0]"

definition short_cycles :: "u8 list" where
  "short_cycles =
     [0x72, 0x4f, 0x9f, 0x7b, 0x1a, 0x7b, 0x84, 0xe5, 0x56, 0x8d, 0xb0, 0x32, 0, 0, 1]"

text \<open>
  \<^verbatim>\<open>if (!state -> shift) for (p = 0; p < 4; p ++)
    state -> shift = (state -> shift << 8) | STABLE_RANDOM_NEXT_LINEAR(state);\<close>
  The first argument of \<open>refill_shift\<close> is the number of iterations left.
\<close>

fun refill_shift :: "nat \<Rightarrow> libsrng_stable_random_state \<Rightarrow> libsrng_stable_random_state" where
  "refill_shift 0 s = s"
| "refill_shift (Suc n) s =
     (let s' = STABLE_RANDOM_NEXT_LINEAR s
      in refill_shift n (s'\<lparr>shift := push_bit 8 (shift s') OR ucast (linear s')\<rparr>))"

definition init_shift :: "libsrng_stable_random_state \<Rightarrow> libsrng_stable_random_state" where
  "init_shift s = (if shift s = 0 then refill_shift 4 s else s)"

text \<open>
  \<^verbatim>\<open>state -> shift ^= state -> shift >> 8; state -> shift ^= state -> shift << 9;
  state -> shift ^= state -> shift >> 23;\<close>
\<close>

definition xorshift :: "u32 \<Rightarrow> u32" where
  "xorshift x =
     (let a = x XOR drop_bit 8 x;
          b = a XOR push_bit 9 a
      in b XOR drop_bit 23 b)"

definition scramble_shift :: "libsrng_stable_random_state \<Rightarrow> libsrng_stable_random_state" where
  "scramble_shift s = s\<lparr>shift := xorshift (shift s)\<rparr>"

text \<open>
  The loop over \<open>short_cycles\<close>, entered when \<open>prev\<close> or \<open>current\<close> is nonzero:
  \<^verbatim>\<open>for (p = 0; p < (sizeof short_cycles - 3); p += 3)
    if (prev == short_cycles[p] && current == short_cycles[p + 1] && carry == short_cycles[p + 2]) {
      prev = short_cycles[p + 3]; current = short_cycles[p + 4]; carry = short_cycles[p + 5]; break; }\<close>
\<close>

function splice_short_cycles ::
  "nat \<Rightarrow> libsrng_stable_random_state \<Rightarrow> libsrng_stable_random_state" where
  "splice_short_cycles p s =
     (if p < length short_cycles - 3 then
        (if prev s = short_cycles ! p \<and> current s = short_cycles ! (p + 1)
            \<and> carry s = short_cycles ! (p + 2)
         then s\<lparr>prev := short_cycles ! (p + 3), current := short_cycles ! (p + 4),
                 carry := short_cycles ! (p + 5)\<rparr>
         else splice_short_cycles (p + 3) s)
      else s)"
  by pat_completeness auto
termination
  by (relation "measure (\<lambda>(p, s). length short_cycles - p)") auto

declare splice_short_cycles.simps [simp del]

text \<open>
  The loop over \<open>cycle_start_points\<close>, entered when \<open>prev\<close> and \<open>current\<close> are both zero:
  \<^verbatim>\<open>for (p = 0; p < (sizeof cycle_start_points - 1); p ++) if (carry == cycle_start_points[p]) {
    carry = cycle_start_points[p + 1];
    if (!carry) { prev = *short_cycles; current = short_cycles[1]; carry = short_cycles[2];
                  STABLE_RANDOM_NEXT_LINEAR(state); }
    break; }\<close>
\<close>

function walk_start_points ::
  "nat \<Rightarrow> libsrng_stable_random_state \<Rightarrow> libsrng_stable_random_state" where
  "walk_start_points p s =
     (if p < length cycle_start_points - 1 then
        (if carry s = cycle_start_points ! p then
           (let s1 = s\<lparr>carry := cycle_start_points ! (p + 1)\<rparr>
            in if carry s1 = 0
               then STABLE_RANDOM_NEXT_LINEAR
                      (s1\<lparr>prev := short_cycles ! 0, current := short_cycles ! 1,
                           carry := short_cycles ! 2\<rparr>)
               else s1)
         else walk_start_points (p + 1) s)
      else s)"
  by pat_completeness auto
termination
  by (relation "measure (\<lambda>(p, s). length cycle_start_points - p)") auto

declare walk_start_points.simps [simp del]

definition escape_short_cycles ::
  "libsrng_stable_random_state \<Rightarrow> libsrng_stable_random_state" where
  "escape_short_cycles s =
     (if prev s \<noteq> 0 \<or> current s \<noteq> 0 then splice_short_cycles 0 s
      else walk_start_points 0 s)"

text \<open>\<^verbatim>\<open>if (state -> carry >= 210) state -> carry -= 210;\<close>\<close>

definition normalize_carry :: "libsrng_stable_random_state \<Rightarrow> libsrng_stable_random_state" where
  "normalize_carry s = (if 210 \<le> carry s then s\<lparr>carry := carry s - 210\<rparr> else s)"

text \<open>
  \<^verbatim>\<open>p = state -> carry + state -> prev + state -> current;
  if (!p || (p == 719)) { prev = NEXT_LINEAR; carry = NEXT_LINEAR; current = NEXT_LINEAR; }\<close>
  The three bytes are promoted before they are added, so the sum is taken in 32 bits.
\<close>

definition escape_fixed_point ::
  "libsrng_stable_random_state \<Rightarrow> libsrng_stable_random_state" where
  "escape_fixed_point s =
     (let p = (ucast (carry s) + ucast (prev s) + ucast (current s) :: u32)
      in if p = 0 \<or> p = 719 then
           (let s1 = STABLE_RANDOM_NEXT_LINEAR s;
                s2 = s1\<lparr>prev := linear s1\<rparr>;
                s3 = STABLE_RANDOM_NEXT_LINEAR s2;
                s4 = s3\<lparr>carry := linear s3\<rparr>;
                s5 = STABLE_RANDOM_NEXT_LINEAR s4
            in s5\<lparr>current := linear s5\<rparr>)
         else s)"

text \<open>
  \<^verbatim>\<open>p = 210 * state -> prev + state -> carry; state -> prev = state -> current;
  state -> current = p & 0xff; state -> carry = p >> 8;\<close>
\<close>

definition generator_step :: "libsrng_stable_random_state \<Rightarrow> libsrng_stable_random_state" where
  "generator_step s =
     (let p = (210 * ucast (prev s) + ucast (carry s) :: u32)
      in s\<lparr>prev := current s, current := ucast (p AND 0xff), carry := ucast (drop_bit 8 p)\<rparr>)"

text \<open>
  The final combine step:
  \<^verbatim>\<open>p = state -> shift >> ((state -> linear >> 3) & 24);
  switch ((state -> linear >> 4) & 3) {
    case 0: return p + state -> current;   case 1: return p ^ state -> current;
    case 2: return p - state -> current;   default: return state -> current - p; }\<close>
  \<open>p\<close> is a \<open>uint32_t\<close>; the return type \<open>unsigned char\<close> truncates the result.
\<close>

definition combine_offset :: "u8 \<Rightarrow> nat" where
  "combine_offset l = unat (drop_bit 3 l AND 24)"

definition combine_selector :: "u8 \<Rightarrow> u8" where
  "combine_selector l = drop_bit 4 l AND 3"

definition combine :: "libsrng_stable_random_state \<Rightarrow> u8" where
  "combine s =
     (let p = drop_bit (combine_offset (linear s)) (shift s);
          sel = combine_selector (linear s)
      in if sel = 0 then ucast (p + ucast (current s))
         else if sel = 1 then ucast (p XOR ucast (current s))
         else if sel = 2 then ucast (p - ucast (current s))
         else ucast (ucast (current s) - p))"

definition libsrng_stable_random ::
  "libsrng_stable_random_state \<Rightarrow> u8 \<times> libsrng_stable_random_state" where
  "libsrng_stable_random s =
     (let s1 = init_shift s;
          s2 = scramble_shift s1;
          s3 = escape_short_cycles s2;
          s4 = normalize_carry s3;
          s5 = escape_fixed_point s4;
          s6 = generator_step s5;
          s7 = STABLE_RANDOM_NEXT_LINEAR s6
      in (combine s7, s7))"

section \<open>The byte adapter: \<^verbatim>\<open>libsrng_random_combined\<close>\<close>

text \<open>
  The function has two branches. The first one reads the register through a
  \<^verbatim>\<open>union libsrng_stable_random_state_union\<close>, so what it does depends on how the platform
  lays the eight bytes of the register out in memory. The model keeps that memory explicit:
  a register is stored as a list of eight bytes in the platform's byte order, and the
  structure overlaid on it has \<open>shift\<close> in bytes 0 to 3 (in the same byte order) and \<open>carry\<close>,
  \<open>current\<close>, \<open>prev\<close>, \<open>linear\<close> in bytes 4, 5, 6, 7 (members are laid out in declaration order,
  and a structure of eight bytes has no padding).
\<close>

datatype byte_order = LittleEndian | BigEndian

definition store_bytes :: "byte_order \<Rightarrow> nat \<Rightarrow> 'a::len word \<Rightarrow> u8 list" where
  "store_bytes bo n x =
     (let le = map (\<lambda>i. ucast (drop_bit (8 * i) x)) [0..<n]
      in case bo of LittleEndian \<Rightarrow> le | BigEndian \<Rightarrow> rev le)"

definition load_bytes :: "byte_order \<Rightarrow> u8 list \<Rightarrow> 'a::len word" where
  "load_bytes bo m =
     foldr (\<lambda>b acc. ucast b OR push_bit 8 acc)
       (case bo of LittleEndian \<Rightarrow> m | BigEndian \<Rightarrow> rev m) 0"

definition load_structured :: "byte_order \<Rightarrow> u8 list \<Rightarrow> libsrng_stable_random_state" where
  "load_structured bo m =
     \<lparr>shift = load_bytes bo (take 4 m), carry = m ! 4, current = m ! 5, prev = m ! 6,
      linear = m ! 7\<rparr>"

definition store_structured :: "byte_order \<Rightarrow> libsrng_stable_random_state \<Rightarrow> u8 list" where
  "store_structured bo s = store_bytes bo 4 (shift s) @ [carry s, current s, prev s, linear s]"

text \<open>
  The guard of the first branch. Its two \<^verbatim>\<open>sizeof\<close> comparisons hold for the layout above;
  the third conjunct is
  \<^verbatim>\<open>((union libsrng_stable_random_state_union) {.numeric = 0x0123456789abcdef}).structured.shift == 0x89abcdef\<close>
\<close>

definition overlay_valid :: "byte_order \<Rightarrow> bool" where
  "overlay_valid bo =
     (shift (load_structured bo (store_bytes bo 8 (0x0123456789abcdef :: u64))) = 0x89abcdef)"

text \<open>
  \<^verbatim>\<open>union libsrng_stable_random_state_union * state_union = (void *) state;
  return libsrng_stable_random(&(state_union -> structured));\<close>
\<close>

definition combined_overlay :: "byte_order \<Rightarrow> u64 \<Rightarrow> u8 \<times> u64" where
  "combined_overlay bo state =
     (let (result, s) = libsrng_stable_random (load_structured bo (store_bytes bo 8 state))
      in (result, load_bytes bo (store_structured bo s)))"

text \<open>
  \<^verbatim>\<open>struct libsrng_stable_random_state temp_state = {.shift = *state, .carry = *state >> 32,
    .current = *state >> 40, .prev = *state >> 48, .linear = *state >> 56};
  unsigned char result = libsrng_stable_random(&temp_state);
  *state = ((uint64_t) temp_state.shift) | ((uint64_t) temp_state.carry << 32) |
           ((uint64_t) temp_state.current << 40) | ((uint64_t) temp_state.prev << 48) |
           ((uint64_t) temp_state.linear << 56);
  return result;\<close>
\<close>

definition unpack_state :: "u64 \<Rightarrow> libsrng_stable_random_state" where
  "unpack_state state =
     \<lparr>shift = ucast state, carry = ucast (drop_bit 32 state), current = ucast (drop_bit 40 state),
      prev = ucast (drop_bit 48 state), linear = ucast (drop_bit 56 state)\<rparr>"

definition pack_state :: "libsrng_stable_random_state \<Rightarrow> u64" where
  "pack_state s =
     ucast (shift s) OR push_bit 32 (ucast (carry s)) OR push_bit 40 (ucast (current s))
       OR push_bit 48 (ucast (prev s)) OR push_bit 56 (ucast (linear s))"

definition combined_portable :: "u64 \<Rightarrow> u8 \<times> u64" where
  "combined_portable state =
     (let (result, temp_state) = libsrng_stable_random (unpack_state state)
      in (result, pack_state temp_state))"

definition libsrng_random_combined :: "byte_order \<Rightarrow> u64 \<Rightarrow> u8 \<times> u64" where
  "libsrng_random_combined bo state =
     (if overlay_valid bo then combined_overlay bo state else combined_portable state)"

section \<open>The multibyte assembler: \<^verbatim>\<open>libsrng_random_combined_multibyte\<close>\<close>

text \<open>
  \<^verbatim>\<open>while (width --) result = (result << 8) | libsrng_random_combined(state);\<close>
  The first argument after the byte order is the number of iterations left.
\<close>

fun combined_loop :: "byte_order \<Rightarrow> nat \<Rightarrow> u64 \<Rightarrow> u64 \<Rightarrow> u64 \<times> u64" where
  "combined_loop bo 0 result state = (result, state)"
| "combined_loop bo (Suc w) result state =
     (let (b, state') = libsrng_random_combined bo state
      in combined_loop bo w (push_bit 8 result OR ucast b) state')"

text \<open>\<^verbatim>\<open>if (width > sizeof(uint64_t)) return -1;\<close>\<close>

definition libsrng_random_combined_multibyte :: "byte_order \<Rightarrow> u64 \<Rightarrow> u8 \<Rightarrow> u64 \<times> u64" where
  "libsrng_random_combined_multibyte bo state width =
     (if 8 < unat width then (- 1, state) else combined_loop bo (unat width) 0 state)"

section \<open>The halfword generator: \<^verbatim>\<open>libsrng_random_halfword\<close>\<close>

definition SWITCH_TRIGGER_STATE_0 :: u64 where "SWITCH_TRIGGER_STATE_0 = 0x3243f6a8885a308d"
definition SWITCH_TRIGGER_STATE_1 :: u64 where "SWITCH_TRIGGER_STATE_1 = 0x2b7e151628aed2a6"
definition SWITCH_TRIGGER_STATE_2 :: u64 where "SWITCH_TRIGGER_STATE_2 = 0x19e3779b97f4a7c1"

definition switch_trigger_states :: "u64 list" where
  "switch_trigger_states =
     [SWITCH_TRIGGER_STATE_0, SWITCH_TRIGGER_STATE_1, SWITCH_TRIGGER_STATE_2,
      SWITCH_TRIGGER_STATE_0]"

text \<open>
  \<^verbatim>\<open>for (count = 0; count < (sizeof switch_trigger_states / sizeof *switch_trigger_states - 1); count ++)
    if (*state == switch_trigger_states[count]) { *state = switch_trigger_states[count + 1]; break; }\<close>
\<close>

function switch_trigger :: "nat \<Rightarrow> u64 \<Rightarrow> u64" where
  "switch_trigger count state =
     (if count < length switch_trigger_states - 1 then
        (if state = switch_trigger_states ! count then switch_trigger_states ! (count + 1)
         else switch_trigger (count + 1) state)
      else state)"
  by pat_completeness auto
termination
  by (relation "measure (\<lambda>(count, state). length switch_trigger_states - count)") auto

declare switch_trigger.simps [simp del]

text \<open>
  \<^verbatim>\<open>return (previous * HALFWORD_LCG_MULTIPLIER + HALFWORD_LCG_ADDEND) & 0xffff;\<close>
  The product is taken in \<open>int\<close> and is below \<open>2^31\<close>, so that masking it gives the 16-bit
  product.
\<close>

definition libsrng_random_linear :: "u16 \<Rightarrow> u16" where
  "libsrng_random_linear previous = (previous * 0x6329 + 0x4321) AND 0xffff"

text \<open>\<^verbatim>\<open>while (count --) buffer = libsrng_random_linear(buffer);\<close>\<close>

fun whiten :: "nat \<Rightarrow> u16 \<Rightarrow> u16" where
  "whiten 0 buffer = buffer"
| "whiten (Suc count) buffer = whiten count (libsrng_random_linear buffer)"

text \<open>
  The part of \<^verbatim>\<open>libsrng_random_halfword\<close> after the loop over the trigger states:
  \<^verbatim>\<open>uint16_t buffer = libsrng_random_combined_multibyte(state, 2);
  count = libsrng_random_combined(state);
  unsigned char shift = count >> 4, multiplier = 3 + ((count & 12) >> 1);
  count = (count & 3) + 2;
  while (count --) buffer = libsrng_random_linear(buffer);
  if (shift) buffer = (buffer << shift) | (buffer >> (16 - shift));
  return (buffer * multiplier) & 0xffff;\<close>
  The rotation is computed in \<open>int\<close> and stored in a \<open>uint16_t\<close>, which keeps its low 16 bits.
\<close>

definition halfword_draw :: "byte_order \<Rightarrow> u64 \<Rightarrow> u16 \<times> u64" where
  "halfword_draw bo state =
     (let (wide, state1) = libsrng_random_combined_multibyte bo state 2;
          buffer = (ucast wide :: u16);
          (count, state2) = libsrng_random_combined bo state1;
          sh = drop_bit 4 count;
          multiplier = 3 + drop_bit 1 (count AND 12);
          count' = (count AND 3) + 2;
          buffer1 = whiten (unat count') buffer;
          buffer2 = (if sh \<noteq> 0
                     then push_bit (unat sh) buffer1 OR drop_bit (16 - unat sh) buffer1
                     else buffer1)
      in ((buffer2 * ucast multiplier) AND 0xffff, state2))"

definition libsrng_random_halfword :: "byte_order \<Rightarrow> u64 \<Rightarrow> u16 \<times> u64" where
  "libsrng_random_halfword bo state = halfword_draw bo (switch_trigger 0 state)"

section \<open>The seed generator: \<^verbatim>\<open>libsrng_random_seed\<close>\<close>

text \<open>
  \<^verbatim>\<open>for (count = 0; count < 4; count ++) second = (second << 16) + libsrng_random_halfword(state);\<close>
\<close>

fun halfword_loop :: "byte_order \<Rightarrow> nat \<Rightarrow> u64 \<Rightarrow> u64 \<Rightarrow> u64 \<times> u64" where
  "halfword_loop bo 0 second state = (second, state)"
| "halfword_loop bo (Suc n) second state =
     (let (h, state') = libsrng_random_halfword bo state
      in halfword_loop bo n (push_bit 16 second + ucast h) state')"

definition SEED_LCG_MULTIPLIER :: u64 where "SEED_LCG_MULTIPLIER = 0x5851f42d4c957f2d"
definition SEED_LCG_FIRST_ADDEND :: u64 where "SEED_LCG_FIRST_ADDEND = 0x0123456789abcdef"
definition SEED_LCG_SECOND_ADDEND :: u64 where "SEED_LCG_SECOND_ADDEND = 0x0fedcba987654321"

definition libsrng_random_seed :: "byte_order \<Rightarrow> u64 \<Rightarrow> u64 \<times> u64" where
  "libsrng_random_seed bo state =
     (let (first0, state1) = libsrng_random_combined_multibyte bo state 8;
          first = first0 * SEED_LCG_MULTIPLIER + SEED_LCG_FIRST_ADDEND;
          (second0, state2) = halfword_loop bo 4 0 state1;
          second = second0 * SEED_LCG_MULTIPLIER + SEED_LCG_SECOND_ADDEND
      in (first XOR second, state2))"

section \<open>The range reducer: \<^verbatim>\<open>libsrng_random_range\<close>\<close>

text \<open>
  \<^verbatim>\<open>while (result < resampling_limit) result = libsrng_random_halfword(state);\<close>
  Nothing in the loop bounds the number of iterations, so the model is a partial function:
  \<open>None\<close> stands for a loop that never ends.
\<close>

partial_function (option) resample ::
  "byte_order \<Rightarrow> u16 \<Rightarrow> u16 \<Rightarrow> u64 \<Rightarrow> (u16 \<times> u64) option" where
  "resample bo resampling_limit result state =
     (if result < resampling_limit
      then resample bo resampling_limit (fst (libsrng_random_halfword bo state))
             (snd (libsrng_random_halfword bo state))
      else Some (result, state))"

declare resample.simps [code]

text \<open>
  \<^verbatim>\<open>if (limit == 1) return 0;
  uint16_t result = libsrng_random_halfword(state);
  if (!(limit & (limit - 1))) return result & (limit - 1);
  if (result >= limit) return result % limit;
  uint16_t resampling_limit = 0x10000 % limit;
  while (result < resampling_limit) result = libsrng_random_halfword(state);
  return result % limit;\<close>
\<close>

definition libsrng_random_range :: "byte_order \<Rightarrow> u64 \<Rightarrow> u16 \<Rightarrow> (u16 \<times> u64) option" where
  "libsrng_random_range bo state limit =
     (if limit = 1 then Some (0, state)
      else
        (let (result, state1) = libsrng_random_halfword bo state
         in if limit AND (limit - 1) = 0 then Some (result AND (limit - 1), state1)
            else if limit \<le> result then Some (result mod limit, state1)
            else
              (let resampling_limit = (of_nat (0x10000 mod unat limit) :: u16)
               in map_option (\<lambda>(r, s). (r mod limit, s))
                    (resample bo resampling_limit result state1))))"

section \<open>The public entry: \<^verbatim>\<open>libsrng_random\<close>\<close>

text \<open>
  \<^verbatim>\<open>while (reseed --) *state = libsrng_random_seed(state);\<close>
  The register is overwritten with the value the call returns; what the call itself left in
  the register is discarded. The count is an \<open>unsigned\<close>, whose width the language does not
  fix; the loop runs that many times, so the model takes the count as a natural number.
\<close>

fun reseed_loop :: "byte_order \<Rightarrow> nat \<Rightarrow> u64 \<Rightarrow> u64" where
  "reseed_loop bo 0 state = state"
| "reseed_loop bo (Suc reseed) state = reseed_loop bo reseed (fst (libsrng_random_seed bo state))"

text \<open>
  \<^verbatim>\<open>if (!state) return 0;
  while (reseed --) *state = libsrng_random_seed(state);
  return libsrng_random_range(state, range);\<close>
  The pointer is an optional register, \<open>None\<close> being the null pointer; the result holds the
  value returned and the register as the call leaves it.
\<close>

fun libsrng_random ::
  "byte_order \<Rightarrow> u64 option \<Rightarrow> u16 \<Rightarrow> nat \<Rightarrow> (u16 \<times> u64 option) option" where
  "libsrng_random bo None range' reseed = Some (0, None)"
| "libsrng_random bo (Some state) range' reseed =
     map_option (\<lambda>(r, s). (r, Some s))
       (libsrng_random_range bo (reseed_loop bo reseed state) range')"

section \<open>Successive draws\<close>

text \<open>
  The draws the redraw loop of \<^verbatim>\<open>libsrng_random_range\<close> looks at, one after the other:
  \<open>successive_draws bo k (result, state)\<close> is the pair of the draw and the register after
  \<open>k\<close> further calls of \<^verbatim>\<open>libsrng_random_halfword\<close>.
\<close>

fun successive_draws :: "byte_order \<Rightarrow> nat \<Rightarrow> u16 \<times> u64 \<Rightarrow> u16 \<times> u64" where
  "successive_draws bo 0 p = p"
| "successive_draws bo (Suc k) p = successive_draws bo k (libsrng_random_halfword bo (snd p))"

section \<open>The callers of the assembler, with the assembler as a parameter\<close>

text \<open>
  \<^verbatim>\<open>libsrng_random_combined_multibyte\<close> is called in two places: in
  \<^verbatim>\<open>libsrng_random_halfword\<close> with the width 2 and in \<^verbatim>\<open>libsrng_random_seed\<close> with the width 8.
  To state which calls of the assembler the public entry depends on, the functions below
  repeat \<^verbatim>\<open>libsrng_random_halfword\<close>, \<^verbatim>\<open>libsrng_random_seed\<close>, \<^verbatim>\<open>libsrng_random_range\<close> and
  \<^verbatim>\<open>libsrng_random\<close> word for word, with a function \<open>mb\<close> in the place of the assembler:
  \<open>mb state width\<close> stands for the call with that register and that width. The control byte
  of \<^verbatim>\<open>libsrng_random_halfword\<close> is drawn by \<^verbatim>\<open>libsrng_random_combined\<close>, not by the assembler,
  here as in the source. \<open>same_at_width mb bo width\<close> says that \<open>mb\<close> is the assembler for
  calls with that width.
\<close>

definition same_at_width :: "(u64 \<Rightarrow> u8 \<Rightarrow> u64 \<times> u64) \<Rightarrow> byte_order \<Rightarrow> u8 \<Rightarrow> bool" where
  "same_at_width mb bo width \<longleftrightarrow>
     (\<forall>state. mb state width = libsrng_random_combined_multibyte bo state width)"

definition halfword_draw_via ::
  "(u64 \<Rightarrow> u8 \<Rightarrow> u64 \<times> u64) \<Rightarrow> byte_order \<Rightarrow> u64 \<Rightarrow> u16 \<times> u64" where
  "halfword_draw_via mb bo state =
     (let (wide, state1) = mb state 2;
          buffer = (ucast wide :: u16);
          (count, state2) = libsrng_random_combined bo state1;
          sh = drop_bit 4 count;
          multiplier = 3 + drop_bit 1 (count AND 12);
          count' = (count AND 3) + 2;
          buffer1 = whiten (unat count') buffer;
          buffer2 = (if sh \<noteq> 0
                     then push_bit (unat sh) buffer1 OR drop_bit (16 - unat sh) buffer1
                     else buffer1)
      in ((buffer2 * ucast multiplier) AND 0xffff, state2))"

definition libsrng_random_halfword_via ::
  "(u64 \<Rightarrow> u8 \<Rightarrow> u64 \<times> u64) \<Rightarrow> byte_order \<Rightarrow> u64 \<Rightarrow> u16 \<times> u64" where
  "libsrng_random_halfword_via mb bo state = halfword_draw_via mb bo (switch_trigger 0 state)"

fun halfword_loop_via ::
  "(u64 \<Rightarrow> u8 \<Rightarrow> u64 \<times> u64) \<Rightarrow> byte_order \<Rightarrow> nat \<Rightarrow> u64 \<Rightarrow> u64 \<Rightarrow> u64 \<times> u64" where
  "halfword_loop_via mb bo 0 second state = (second, state)"
| "halfword_loop_via mb bo (Suc n) second state =
     (let (h, state') = libsrng_random_halfword_via mb bo state
      in halfword_loop_via mb bo n (push_bit 16 second + ucast h) state')"

definition libsrng_random_seed_via ::
  "(u64 \<Rightarrow> u8 \<Rightarrow> u64 \<times> u64) \<Rightarrow> byte_order \<Rightarrow> u64 \<Rightarrow> u64 \<times> u64" where
  "libsrng_random_seed_via mb bo state =
     (let (first0, state1) = mb state 8;
          first = first0 * SEED_LCG_MULTIPLIER + SEED_LCG_FIRST_ADDEND;
          (second0, state2) = halfword_loop_via mb bo 4 0 state1;
          second = second0 * SEED_LCG_MULTIPLIER + SEED_LCG_SECOND_ADDEND
      in (first XOR second, state2))"

partial_function (option) resample_via ::
  "(u64 \<Rightarrow> u8 \<Rightarrow> u64 \<times> u64) \<Rightarrow> byte_order \<Rightarrow> u16 \<Rightarrow> u16 \<Rightarrow> u64 \<Rightarrow> (u16 \<times> u64) option" where
  "resample_via mb bo resampling_limit result state =
     (if result < resampling_limit
      then resample_via mb bo resampling_limit (fst (libsrng_random_halfword_via mb bo state))
             (snd (libsrng_random_halfword_via mb bo state))
      else Some (result, state))"

definition libsrng_random_range_via ::
  "(u64 \<Rightarrow> u8 \<Rightarrow> u64 \<times> u64) \<Rightarrow> byte_order \<Rightarrow> u64 \<Rightarrow> u16 \<Rightarrow> (u16 \<times> u64) option" where
  "libsrng_random_range_via mb bo state limit =
     (if limit = 1 then Some (0, state)
      else
        (let (result, state1) = libsrng_random_halfword_via mb bo state
         in if limit AND (limit - 1) = 0 then Some (result AND (limit - 1), state1)
            else if limit \<le> result then Some (result mod limit, state1)
            else
              (let resampling_limit = (of_nat (0x10000 mod unat limit) :: u16)
               in map_option (\<lambda>(r, s). (r mod limit, s))
                    (resample_via mb bo resampling_limit result state1))))"

fun reseed_loop_via ::
  "(u64 \<Rightarrow> u8 \<Rightarrow> u64 \<times> u64) \<Rightarrow> byte_order \<Rightarrow> nat \<Rightarrow> u64 \<Rightarrow> u64" where
  "reseed_loop_via mb bo 0 state = state"
| "reseed_loop_via mb bo (Suc reseed) state =
     reseed_loop_via mb bo reseed (fst (libsrng_random_seed_via mb bo state))"

fun libsrng_random_via ::
  "(u64 \<Rightarrow> u8 \<Rightarrow> u64 \<times> u64) \<Rightarrow> byte_order \<Rightarrow> u64 option \<Rightarrow> u16 \<Rightarrow> nat
     \<Rightarrow> (u16 \<times> u64 option) option" where
  "libsrng_random_via mb bo None range' reseed = Some (0, None)"
| "libsrng_random_via mb bo (Some state) range' reseed =
     map_option (\<lambda>(r, s). (r, Some s))
       (libsrng_random_range_via mb bo (reseed_loop_via mb bo reseed state) range')"

section \<open>Properties of the byte generator\<close>

lemma next_linear_simps [simp]:
  "shift (STABLE_RANDOM_NEXT_LINEAR s) = shift s"
  "carry (STABLE_RANDOM_NEXT_LINEAR s) = carry s"
  "current (STABLE_RANDOM_NEXT_LINEAR s) = current s"
  "prev (STABLE_RANDOM_NEXT_LINEAR s) = prev s"
  "linear (STABLE_RANDOM_NEXT_LINEAR s) = linear s * 73 + 29"
  by (simp_all add: STABLE_RANDOM_NEXT_LINEAR_def)

subsection \<open>The refilled shift register is not zero\<close>

lemma low_byte_of_refill: "ucast (push_bit 8 (a :: u32) OR ucast (l :: u8)) = l"
  by (rule bit_word_eqI) (auto simp: bit_simps)

lemma second_byte_of_refill:
  "ucast (drop_bit 8 (push_bit 8 (push_bit 8 (a :: u32) OR ucast (k :: u8)) OR ucast (l :: u8))) = k"
  by (rule bit_word_eqI) (auto simp: bit_simps dest: bit_imp_le_length)

text \<open>
  Two bytes that follow each other in the counter recurrence are not both zero: after a
  zero byte comes 29.
\<close>

lemma refill_two_nonzero:
  fixes a :: u32 and k l :: u8
  assumes "l = k * 73 + 29"
  shows "push_bit 8 (push_bit 8 a OR ucast k) OR ucast l \<noteq> 0"
proof
  assume z: "push_bit 8 (push_bit 8 a OR ucast k) OR ucast l = 0"
  have "k = ucast (drop_bit 8 (push_bit 8 (push_bit 8 a OR ucast k) OR ucast l))"
    by (simp only: second_byte_of_refill)
  then have k: "k = 0" by (simp only: z) simp
  have "l = ucast (push_bit 8 (push_bit 8 a OR ucast k) OR ucast l)"
    by (simp only: low_byte_of_refill)
  then have "l = 0" by (simp only: z) simp
  with k assms show False by simp
qed

lemma refill_shift_add:
  "refill_shift (m + n) s = refill_shift n (refill_shift m s)"
  by (induction m arbitrary: s) (simp_all add: Let_def)

lemma refill_shift_2_nonzero: "shift (refill_shift 2 t) \<noteq> 0"
proof -
  define k where "k = linear t * 73 + 29"
  define l where "l = k * 73 + 29"
  have "shift (refill_shift 2 t) = push_bit 8 (push_bit 8 (shift t) OR ucast k) OR ucast l"
    by (simp add: numeral_2_eq_2 Let_def k_def l_def)
  with refill_two_nonzero [OF l_def, of "shift t"] show ?thesis by simp
qed

lemma refill_shift_4_nonzero: "shift (refill_shift 4 s) \<noteq> 0"
proof -
  have "refill_shift 4 s = refill_shift 2 (refill_shift 2 s)"
    using refill_shift_add [of 2 2 s] by simp
  then show ?thesis by (simp only: refill_shift_2_nonzero not_False_eq_True)
qed

lemma shift_init_shift_nonzero: "shift (init_shift s) \<noteq> 0"
  by (simp add: init_shift_def refill_shift_4_nonzero)

subsection \<open>The xorshift triple keeps nonzero values nonzero\<close>

lemma word_xor_zero_eq: "a XOR b = 0 \<Longrightarrow> a = b" for a b :: "'a::len word"
  by (simp add: bit_eq_iff bit_xor_iff)

lemma xor_drop_bit_zero:
  fixes x :: u32
  assumes "x XOR drop_bit n x = 0" and "0 < n"
  shows "x = 0"
proof -
  from assms(1) have "x = drop_bit n x" by (rule word_xor_zero_eq)
  then have "unat x = unat (drop_bit n x)" by (rule arg_cong)
  also have "unat (drop_bit n x) = unat x div 2 ^ n"
    unfolding unat_drop_bit_eq by (rule drop_bit_eq_div)
  finally have eq: "unat x = unat x div 2 ^ n" .
  have "unat x = 0"
  proof (rule ccontr)
    assume "unat x \<noteq> 0"
    moreover have "(1::nat) < 2 ^ n" using assms(2) by (intro one_less_power) simp_all
    ultimately have "unat x div 2 ^ n < unat x" by simp
    with eq show False by simp
  qed
  then show ?thesis by (simp only: unat_eq_0)
qed

lemma xor_push_bit_zero:
  fixes x :: u32
  assumes "x XOR push_bit n x = 0" and "0 < n"
  shows "x = 0"
proof -
  from assms(1) have eq: "x = push_bit n x" by (rule word_xor_zero_eq)
  have "\<not> bit x m" for m
  proof (induction m rule: less_induct)
    case (less m)
    show ?case
    proof
      assume "bit x m"
      with eq have "bit (push_bit n x) m" by (rule subst)
      then have "n \<le> m" and "bit x (m - n)" by (simp_all add: bit_push_bit_iff)
      with less [of "m - n"] assms(2) show False by simp
    qed
  qed
  then show ?thesis by (simp add: bit_eq_iff)
qed

lemma xorshift_eq_0_iff: "xorshift x = 0 \<longleftrightarrow> x = 0"
proof
  assume "xorshift x = 0"
  then have "(x XOR drop_bit 8 x) XOR push_bit 9 (x XOR drop_bit 8 x) = 0"
    unfolding xorshift_def Let_def by (rule xor_drop_bit_zero) simp
  then have "x XOR drop_bit 8 x = 0" by (rule xor_push_bit_zero) simp
  then show "x = 0" by (rule xor_drop_bit_zero) simp
next
  assume "x = 0"
  then show "xorshift x = 0" by (simp add: xorshift_def)
qed

subsection \<open>Only the first two steps write the shift register\<close>

lemma shift_splice_short_cycles [simp]: "shift (splice_short_cycles p s) = shift s"
  by (induction p s rule: splice_short_cycles.induct)
     (subst splice_short_cycles.simps, simp)

lemma shift_walk_start_points [simp]: "shift (walk_start_points p s) = shift s"
  by (induction p s rule: walk_start_points.induct)
     (subst walk_start_points.simps, simp add: Let_def)

lemma shift_escape_short_cycles [simp]: "shift (escape_short_cycles s) = shift s"
  by (simp add: escape_short_cycles_def)

lemma shift_normalize_carry [simp]: "shift (normalize_carry s) = shift s"
  by (simp add: normalize_carry_def)

lemma shift_escape_fixed_point [simp]: "shift (escape_fixed_point s) = shift s"
  by (simp add: escape_fixed_point_def Let_def)

lemma shift_generator_step [simp]: "shift (generator_step s) = shift s"
  by (simp add: generator_step_def Let_def)

lemma shift_libsrng_stable_random:
  "shift (snd (libsrng_stable_random s)) = xorshift (shift (init_shift s))"
  by (simp add: libsrng_stable_random_def Let_def scramble_shift_def)

lemma shift_after_nonzero: "shift (snd (libsrng_stable_random s)) \<noteq> 0"
  by (simp add: shift_libsrng_stable_random xorshift_eq_0_iff shift_init_shift_nonzero)

subsection \<open>The combine step on bytes\<close>

lemma ucast_wi_u32_u8: "(ucast (word_of_int k :: u32) :: u8) = word_of_int k"
  by (rule ucast_down_wi) (simp add: is_down)

lemma ucast_ucast_u8: "(ucast (ucast (c :: u8) :: u32) :: u8) = c"
  by (rule bit_word_eqI) (simp add: bit_simps)

lemma ucast_down_add: "(ucast (a + b :: u32) :: u8) = ucast a + ucast b"
proof -
  have "a + b = word_of_int (uint a) + word_of_int (uint b)"
    by (simp only: word_of_int_uint)
  also have "\<dots> = word_of_int (uint a + uint b)" by (rule wi_hom_add)
  finally have "(ucast (a + b) :: u8) = ucast (word_of_int (uint a + uint b) :: u32)"
    by (rule arg_cong)
  also have "\<dots> = word_of_int (uint a + uint b)" by (rule ucast_wi_u32_u8)
  also have "\<dots> = word_of_int (uint a) + word_of_int (uint b)" by (rule wi_hom_add [symmetric])
  also have "\<dots> = ucast a + ucast b" by (simp only: ucast_eq)
  finally show ?thesis .
qed

lemma ucast_down_sub: "(ucast (a - b :: u32) :: u8) = ucast a - ucast b"
proof -
  have "a - b = word_of_int (uint a) - word_of_int (uint b)"
    by (simp only: word_of_int_uint)
  also have "\<dots> = word_of_int (uint a - uint b)" by (rule wi_hom_sub)
  finally have "(ucast (a - b) :: u8) = ucast (word_of_int (uint a - uint b) :: u32)"
    by (rule arg_cong)
  also have "\<dots> = word_of_int (uint a - uint b)" by (rule ucast_wi_u32_u8)
  also have "\<dots> = word_of_int (uint a) - word_of_int (uint b)" by (rule wi_hom_sub [symmetric])
  also have "\<dots> = ucast a - ucast b" by (simp only: ucast_eq)
  finally show ?thesis .
qed

lemma ucast_down_xor: "(ucast (a XOR b :: u32) :: u8) = ucast a XOR ucast b"
  by (rule bit_word_eqI) (auto simp: bit_simps)

lemma drop3_and24: "drop_bit 3 (l :: u8) AND 24 = push_bit 3 (drop_bit 6 l)"
proof -
  have "(24 :: u8) = push_bit 3 (mask 2)" by (simp add: mask_eq_exp_minus_1)
  then have "drop_bit 3 l AND 24 = drop_bit 3 l AND push_bit 3 (mask 2)" by (rule arg_cong)
  also have "\<dots> = push_bit 3 (drop_bit 6 l)"
    by (rule bit_word_eqI) (auto simp: bit_simps dest: bit_imp_le_length)
  finally show ?thesis .
qed

lemma unat_drop6: "unat (drop_bit 6 (l :: u8)) < 4"
proof -
  have "unat (drop_bit 6 l) = unat l div 2 ^ 6"
    unfolding unat_drop_bit_eq by (rule drop_bit_eq_div)
  moreover have "unat l < 256" using unsigned_less [of l, where ?'a = nat] by simp
  ultimately show ?thesis by simp
qed

lemma combine_offset_eq: "combine_offset l = 8 * unat (drop_bit 6 l)"
proof -
  have "unat (push_bit 3 (drop_bit 6 l)) = unat (drop_bit 6 l * 8)"
    by (simp add: push_bit_eq_mult)
  also have "\<dots> = (unat (drop_bit 6 l) * 8) mod 256"
    by (simp add: unat_word_ariths)
  also have "\<dots> = 8 * unat (drop_bit 6 l)"
    using unat_drop6 [of l] by simp
  finally show ?thesis by (simp only: combine_offset_def drop3_and24)
qed

lemma combine_offset_cases: "combine_offset l \<in> {0, 8, 16, 24}"
proof -
  have "unat (drop_bit 6 l) \<in> {0, 1, 2, 3}" using unat_drop6 [of l] by auto
  then show ?thesis unfolding combine_offset_eq by auto
qed

lemma combine_offset_div: "combine_offset l = 8 * (unat l div 64)"
proof -
  have "unat (drop_bit 6 l) = unat l div 2 ^ 6"
    unfolding unat_drop_bit_eq by (rule drop_bit_eq_div)
  then show ?thesis by (simp add: combine_offset_eq)
qed

lemma combine_selector_div: "unat (combine_selector l) = unat l div 16 mod 4"
proof -
  have "(3 :: u8) = mask 2" by (simp add: mask_eq_exp_minus_1)
  then have "combine_selector l = take_bit 2 (drop_bit 4 l)"
    by (simp only: combine_selector_def take_bit_eq_mask)
  then have "unat (combine_selector l) = take_bit 2 (unat (drop_bit 4 l))"
    by (simp only: unsigned_take_bit_eq)
  also have "\<dots> = unat (drop_bit 4 l) mod 2 ^ 2" by (rule take_bit_eq_mod)
  also have "unat (drop_bit 4 l) = unat l div 2 ^ 4"
    unfolding unat_drop_bit_eq by (rule drop_bit_eq_div)
  finally show ?thesis by simp
qed

lemma combine_eq:
  "combine s =
     (let b = (ucast (drop_bit (8 * unat (drop_bit 6 (linear s))) (shift s)) :: u8);
          sel = drop_bit 4 (linear s) AND 3
      in if sel = 0 then b + current s
         else if sel = 1 then b XOR current s
         else if sel = 2 then b - current s
         else current s - b)"
  by (simp add: combine_def Let_def combine_selector_def combine_offset_eq
      ucast_down_add ucast_down_sub ucast_down_xor ucast_ucast_u8)

section \<open>Properties of the byte adapter\<close>

lemma upt_8: "[0..<8] = [0, 1, 2, 3, 4, 5, 6, 7]"
  by (simp add: upt_rec)

lemma upt_4: "[0..<4] = [0, 1, 2, 3]"
  by (simp add: upt_rec)

lemma store_bytes_le_8:
  "store_bytes LittleEndian 8 (x :: u64) =
     [ucast x, ucast (drop_bit 8 x), ucast (drop_bit 16 x), ucast (drop_bit 24 x),
      ucast (drop_bit 32 x), ucast (drop_bit 40 x), ucast (drop_bit 48 x), ucast (drop_bit 56 x)]"
  by (simp add: store_bytes_def upt_8)

lemma store_bytes_le_4:
  "store_bytes LittleEndian 4 (x :: u32) =
     [ucast x, ucast (drop_bit 8 x), ucast (drop_bit 16 x), ucast (drop_bit 24 x)]"
  by (simp add: store_bytes_def upt_4)

lemma load_bytes_le_4:
  "(load_bytes LittleEndian [b0, b1, b2, b3] :: u32) =
     ucast b0 OR push_bit 8 (ucast b1) OR push_bit 16 (ucast b2) OR push_bit 24 (ucast b3)"
  unfolding load_bytes_def
  by (rule bit_word_eqI) (auto simp: bit_simps)

lemma load_bytes_le_8:
  "(load_bytes LittleEndian [b0, b1, b2, b3, b4, b5, b6, b7] :: u64) =
     ucast b0 OR push_bit 8 (ucast b1) OR push_bit 16 (ucast b2) OR push_bit 24 (ucast b3)
       OR push_bit 32 (ucast b4) OR push_bit 40 (ucast b5) OR push_bit 48 (ucast b6)
       OR push_bit 56 (ucast b7)"
  unfolding load_bytes_def
  by (rule bit_word_eqI) (auto simp: bit_simps)

lemma low_word_of_bytes:
  fixes x :: u64
  shows "(ucast (ucast x :: u8) OR push_bit 8 (ucast (ucast (drop_bit 8 x) :: u8))
           OR push_bit 16 (ucast (ucast (drop_bit 16 x) :: u8))
           OR push_bit 24 (ucast (ucast (drop_bit 24 x) :: u8)) :: u32) = ucast x"
    (is "?l = ?r")
proof (rule bit_word_eqI)
  fix n
  assume n: "n < LENGTH(32)"
  consider "n < 8" | "8 \<le> n" "n < 16" | "16 \<le> n" "n < 24" | "24 \<le> n"
    by linarith
  then show "bit ?l n \<longleftrightarrow> bit ?r n"
    using n by cases (auto simp: bit_simps)
qed

lemma load_structured_store_bytes:
  "load_structured LittleEndian (store_bytes LittleEndian 8 state) = unpack_state state"
  by (simp add: load_structured_def store_bytes_le_8 load_bytes_le_4 low_word_of_bytes
      unpack_state_def)

lemma word_of_low_bytes:
  fixes x :: u32
  shows "(ucast (ucast x :: u8) OR push_bit 8 (ucast (ucast (drop_bit 8 x) :: u8))
           OR push_bit 16 (ucast (ucast (drop_bit 16 x) :: u8))
           OR push_bit 24 (ucast (ucast (drop_bit 24 x) :: u8)) :: u64) = ucast x"
    (is "?l = ?r")
proof (rule bit_word_eqI)
  fix n
  assume n: "n < LENGTH(64)"
  consider "n < 8" | "8 \<le> n" "n < 16" | "16 \<le> n" "n < 24" | "24 \<le> n"
    by linarith
  then show "bit ?l n \<longleftrightarrow> bit ?r n"
    using n by cases (auto simp: bit_simps dest: bit_imp_le_length)
qed

lemma load_bytes_store_structured:
  "load_bytes LittleEndian (store_structured LittleEndian s) = pack_state s"
proof -
  have "(load_bytes LittleEndian (store_structured LittleEndian s) :: u64) =
          (ucast (ucast (shift s) :: u8) OR push_bit 8 (ucast (ucast (drop_bit 8 (shift s)) :: u8))
           OR push_bit 16 (ucast (ucast (drop_bit 16 (shift s)) :: u8))
           OR push_bit 24 (ucast (ucast (drop_bit 24 (shift s)) :: u8)))
          OR push_bit 32 (ucast (carry s)) OR push_bit 40 (ucast (current s))
          OR push_bit 48 (ucast (prev s)) OR push_bit 56 (ucast (linear s))"
    by (simp only: store_structured_def store_bytes_le_4 append.simps load_bytes_le_8
        or.assoc)
  then show ?thesis by (simp only: word_of_low_bytes pack_state_def)
qed

lemma overlay_valid_little: "overlay_valid LittleEndian"
  by (simp add: overlay_valid_def load_structured_store_bytes unpack_state_def)

lemma overlay_valid_big: "\<not> overlay_valid BigEndian"
  by (simp add: overlay_valid_def load_structured_def store_bytes_def upt_8 load_bytes_def)

lemma combined_overlay_little: "combined_overlay LittleEndian state = combined_portable state"
  by (simp add: combined_overlay_def combined_portable_def load_structured_store_bytes
      load_bytes_store_structured)

lemma libsrng_random_combined_portable:
  "libsrng_random_combined bo state = combined_portable state"
  by (cases bo)
     (simp_all add: libsrng_random_combined_def overlay_valid_little overlay_valid_big
        combined_overlay_little)

section \<open>The first draws from the register 0\<close>

lemma combined_portable_0: "combined_portable 0 = (210, 0x48d31884e3a5baac)"
  by code_simp

lemma combined_portable_1: "combined_portable 0x48d31884e3a5baac = (222, 0xa5189aad6f7833c8)"
  by code_simp

lemma combined_portable_2: "combined_portable 0xa5189aad6f7833c8 = (27, 0x2a9a5d144180bd78)"
  by code_simp

lemma combined_portable_3: "combined_portable 0x2a9a5d144180bd78 = (42, 0x175d687ec3bab642)"
  by code_simp

lemma combined_portable_4: "combined_portable 0x175d687ec3bab642 = (152, 0xac68c84c3160e496)"
  by code_simp

lemma combined_portable_5: "combined_portable 0xac68c84c3160e496 = (186, 0x29c89c5592596156)"
  by code_simp

lemma switch_trigger_at_0: "switch_trigger 0 0 = 0"
  by code_simp

lemma switch_trigger_at_1: "switch_trigger 0 0x2a9a5d144180bd78 = 0x2a9a5d144180bd78"
  by code_simp

lemma combined_loop_2:
  "combined_loop bo 2 result state =
     (let (b, state') = libsrng_random_combined bo state;
          (b', state'') = libsrng_random_combined bo state'
      in (push_bit 8 (push_bit 8 result OR ucast b) OR ucast b', state''))"
  by (simp add: numeral_2_eq_2 Let_def split: prod.splits)

lemma whiten_numeral:
  "whiten (numeral k) buffer = whiten (pred_numeral k) (libsrng_random_linear buffer)"
  by (simp add: numeral_eq_Suc)

lemma libsrng_random_halfword_0: "libsrng_random_halfword bo 0 = (21041, 0x2a9a5d144180bd78)"
  by (simp add: libsrng_random_halfword_def switch_trigger_at_0 halfword_draw_def
      libsrng_random_combined_multibyte_def combined_loop_2
      libsrng_random_combined_portable combined_portable_0 combined_portable_1
      combined_portable_2 libsrng_random_linear_def whiten_numeral)

lemma libsrng_random_halfword_1:
  "libsrng_random_halfword bo 0x2a9a5d144180bd78 = (47120, 0x29c89c5592596156)"
  by (simp add: libsrng_random_halfword_def switch_trigger_at_1 halfword_draw_def
      libsrng_random_combined_multibyte_def combined_loop_2
      libsrng_random_combined_portable combined_portable_3 combined_portable_4
      combined_portable_5 libsrng_random_linear_def whiten_numeral)

lemma libsrng_random_range_0_10: "libsrng_random_range bo 0 10 = Some (1, 0x2a9a5d144180bd78)"
  by (simp add: libsrng_random_range_def libsrng_random_halfword_0)

lemma libsrng_random_range_0_40000:
  "libsrng_random_range bo 0 40000 = Some (7120, 0x29c89c5592596156)"
  by (simp add: libsrng_random_range_def libsrng_random_halfword_0 resample.simps
      libsrng_random_halfword_1)

section \<open>Properties of the range reducer and of the public entry\<close>

text \<open>The redraw loop returns as soon as one of the successive draws is not below the bound.\<close>

lemma resample_returns:
  "\<not> fst (successive_draws bo k (result, state)) < rl \<Longrightarrow> resample bo rl result state \<noteq> None"
proof (induction k arbitrary: result state)
  case 0
  then show ?case by (subst resample.simps) simp
next
  case (Suc k)
  show ?case
  proof (cases "result < rl")
    case True
    from Suc.prems
    have "\<not> fst (successive_draws bo k (fst (libsrng_random_halfword bo state),
                     snd (libsrng_random_halfword bo state))) < rl"
      by simp
    then have "resample bo rl (fst (libsrng_random_halfword bo state))
                 (snd (libsrng_random_halfword bo state)) \<noteq> None"
      by (rule Suc.IH)
    with True show ?thesis by (subst resample.simps) simp
  next
    case False
    then show ?thesis by (subst resample.simps) simp
  qed
qed

lemma word_pred_less: "limit \<noteq> 0 \<Longrightarrow> limit - 1 < limit" for limit :: u16
  using less_eq_dec_iff by blast

lemma resampling_limit_less:
  "limit \<noteq> 0 \<Longrightarrow> (of_nat (0x10000 mod unat limit) :: u16) < limit"
  by (simp add: unat_gt_0 uno_simps(1) word_less_nat_alt)

lemma reseed_loop_funpow:
  "reseed_loop bo n state = ((\<lambda>s. fst (libsrng_random_seed bo s)) ^^ n) state"
proof -
  define F where "F = (\<lambda>s. fst (libsrng_random_seed bo s))"
  have step: "fst (libsrng_random_seed bo s) = F s" for s by (simp add: F_def)
  have "reseed_loop bo n state = (F ^^ n) state"
    by (induction n arbitrary: state) (simp_all add: step funpow_swap1)
  then show ?thesis by (simp only: F_def)
qed

lemma pow2_and_pred: "(2 ^ k :: u16) AND (2 ^ k - 1) = 0"
  by (rule bit_word_eqI) (auto simp: bit_simps simp flip: mask_eq_exp_minus_1)

lemma pow2_neq_1: "0 < k \<Longrightarrow> k < 16 \<Longrightarrow> (2 ^ k :: u16) \<noteq> 1"
  by (metis linorder_not_less numeral_One numeral_le_iff one_less_power
    order_less_irrefl power_0 semiring_norm(69) uint_2p
    word_less_1)

lemma and_pred_less: "limit \<noteq> 0 \<Longrightarrow> result AND (limit - 1) < limit" for limit :: u16
  using word_and_le1 [of result "limit - 1"] word_pred_less [of limit] by simp

lemma mod_less_limit: "limit \<noteq> 0 \<Longrightarrow> result mod limit < limit" for limit :: u16
  by (simp add: word_mod_less_divisor word_neq_0_conv)

lemma libsrng_random_range_bound:
  assumes "1 < limit" and "libsrng_random_range bo state limit = Some (res, state')"
  shows "res < limit"
proof -
  from assms(1) have nz: "limit \<noteq> 0" and n1: "limit \<noteq> 1" by auto
  from assms(2) n1 show ?thesis
    by (auto simp: libsrng_random_range_def Let_def and_pred_less [OF nz] mod_less_limit [OF nz]
        split: prod.splits if_splits)
qed

lemma libsrng_random_range_returns:
  assumes "limit AND (limit - 1) = 0 \<or>
           (\<exists>k. \<not> fst (successive_draws bo k (libsrng_random_halfword bo state))
                   < of_nat (0x10000 mod unat limit))"
  shows "libsrng_random_range bo state limit \<noteq> None"
proof (cases "limit AND (limit - 1) = 0")
  case True
  then show ?thesis
    by (simp add: libsrng_random_range_def Let_def split: prod.splits)
next
  case False
  with assms obtain k where
    k: "\<not> fst (successive_draws bo k (libsrng_random_halfword bo state))
          < of_nat (0x10000 mod unat limit)"
    by blast
  obtain result state1 where h: "libsrng_random_halfword bo state = (result, state1)"
    by (cases "libsrng_random_halfword bo state")
  from k have "resample bo (of_nat (0x10000 mod unat limit)) result state1 \<noteq> None"
    unfolding h by (rule resample_returns)
  then show ?thesis
    by (auto simp: libsrng_random_range_def Let_def h)
qed

lemma switch_trigger_unfold:
  "switch_trigger 0 state =
     (if state = SWITCH_TRIGGER_STATE_0 then SWITCH_TRIGGER_STATE_1
      else if state = SWITCH_TRIGGER_STATE_1 then SWITCH_TRIGGER_STATE_2
      else if state = SWITCH_TRIGGER_STATE_2 then SWITCH_TRIGGER_STATE_0
      else state)"
proof -
  have s3: "switch_trigger (Suc (Suc (Suc 0))) state = state"
    by (subst switch_trigger.simps) (simp add: switch_trigger_states_def)
  have s2: "switch_trigger (Suc (Suc 0)) state =
              (if state = SWITCH_TRIGGER_STATE_2 then SWITCH_TRIGGER_STATE_0 else state)"
    by (subst switch_trigger.simps) (simp add: switch_trigger_states_def s3)
  have s1: "switch_trigger (Suc 0) state =
              (if state = SWITCH_TRIGGER_STATE_1 then SWITCH_TRIGGER_STATE_2
               else if state = SWITCH_TRIGGER_STATE_2 then SWITCH_TRIGGER_STATE_0 else state)"
    by (subst switch_trigger.simps) (simp add: switch_trigger_states_def s2)
  show ?thesis
    by (subst switch_trigger.simps) (simp add: switch_trigger_states_def s1)
qed

section \<open>What is proved about the range bound and about returning\<close>

text \<open>
  The redraw loop is not proved to end for every register, so the facts of this section
  are about the results that are returned and about when the call returns. A result
  \<^verbatim>\<open>libsrng_random\<close> returns for a limit above 1 is below the limit. The call returns unless
  the limit is not a power of two and every one of the successive draws of
  \<^verbatim>\<open>libsrng_random_halfword\<close> stays below \<open>65536 mod limit\<close>.
\<close>

lemma returned_result_below_limit:
  assumes "1 < limit"
  shows "case libsrng_random bo (Some r) limit reseed of
           Some (res, r') \<Rightarrow> res < limit
         | None \<Rightarrow>
             limit AND (limit - 1) \<noteq> 0 \<and>
             (\<forall>k. fst (successive_draws bo k
                          (libsrng_random_halfword bo (reseed_loop bo reseed r)))
                    < of_nat (0x10000 mod unat limit))"
proof (cases "libsrng_random_range bo (reseed_loop bo reseed r) limit")
  case None
  with libsrng_random_range_returns [of limit bo "reseed_loop bo reseed r"]
  show ?thesis by auto
next
  case (Some p)
  obtain res s where p: "p = (res, s)" by (cases p)
  from assms Some have "res < limit" unfolding p by (rule libsrng_random_range_bound)
  with Some p show ?thesis by simp
qed

text \<open>
  From the register 0 with limit 10 the first draw is 21041, which is returned modulo 10;
  with limit 40000 the first draw is below \<open>65536 mod 40000 = 25536\<close>, the loop draws
  47120 and returns 7120.
\<close>

lemma draws_from_register_0:
  "libsrng_random LittleEndian (Some 0) 10 0 = Some (1, Some 0x2a9a5d144180bd78) \<and>
   libsrng_random LittleEndian (Some 0) 40000 0 = Some (7120, Some 0x29c89c5592596156)"
  by (simp add: libsrng_random_range_0_10 libsrng_random_range_0_40000)

text \<open>
  With a null pointer \<^verbatim>\<open>libsrng_random\<close> returns 0 and there is no register to modify. With
  a register, limit 1 and no reseed it also returns 0 and leaves the register as it was: the
  value 0 with an unmodified register does not tell the null pointer apart. With a register
  the call returns whenever the limit is 0 or a power of two, or one of the successive draws
  is not below \<open>65536 mod limit\<close>.
\<close>

lemma null_state_returns_early:
  "libsrng_random bo None limit n = Some (0, None) \<and>
   libsrng_random bo (Some r) 1 0 = Some (0, Some r) \<and>
   (limit AND (limit - 1) = 0 \<or>
      (\<exists>k. \<not> fst (successive_draws bo k (libsrng_random_halfword bo (reseed_loop bo n r)))
              < of_nat (0x10000 mod unat limit))
    \<longrightarrow> libsrng_random bo (Some r) limit n \<noteq> None)"
  using libsrng_random_range_returns [of limit bo "reseed_loop bo n r"]
  by (auto simp: libsrng_random_range_def)

lemma zero_and_unmodified_with_register_present:
  "libsrng_random LittleEndian (Some 0) 1 0 = Some (0, Some 0)"
  by (simp add: libsrng_random_range_def)

section \<open>The assembler is called with the widths 2 and 8 only\<close>

lemma halfword_draw_via_eq:
  assumes "same_at_width mb bo 2"
  shows "halfword_draw_via mb bo state = halfword_draw bo state"
  using assms by (simp add: halfword_draw_via_def halfword_draw_def same_at_width_def)

lemma libsrng_random_halfword_via_eq:
  assumes "same_at_width mb bo 2"
  shows "libsrng_random_halfword_via mb bo state = libsrng_random_halfword bo state"
  by (simp only: libsrng_random_halfword_via_def libsrng_random_halfword_def
      halfword_draw_via_eq [OF assms])

lemma halfword_loop_via_eq:
  assumes "same_at_width mb bo 2"
  shows "halfword_loop_via mb bo n second state = halfword_loop bo n second state"
  by (induction n arbitrary: second state)
     (simp_all add: libsrng_random_halfword_via_eq [OF assms] split: prod.splits)

lemma libsrng_random_seed_via_eq:
  assumes "same_at_width mb bo 2" and "same_at_width mb bo 8"
  shows "libsrng_random_seed_via mb bo state = libsrng_random_seed bo state"
  using assms(2)
  by (simp add: libsrng_random_seed_via_def libsrng_random_seed_def same_at_width_def
      halfword_loop_via_eq [OF assms(1)])

lemma resample_via_Some:
  assumes via: "resample_via mb bo rl r s = Some z"
  shows "same_at_width mb bo 2 \<longrightarrow> resample bo rl r s = Some z"
proof (rule resample_via.raw_induct
    [where P = "\<lambda>mb bo rl r s z. same_at_width mb bo 2 \<longrightarrow> resample bo rl r s = Some z",
      OF _ via])
  fix f mb bo rl r s z
  assume IH: "\<And>mb bo rl r s z. f mb bo rl r s = Some z \<Longrightarrow>
                same_at_width mb bo 2 \<longrightarrow> resample bo rl r s = Some z"
    and step: "(if r < rl
                then f mb bo rl (fst (libsrng_random_halfword_via mb bo s))
                       (snd (libsrng_random_halfword_via mb bo s))
                else Some (r, s)) = Some z"
  show "same_at_width mb bo 2 \<longrightarrow> resample bo rl r s = Some z"
  proof
    assume agree: "same_at_width mb bo 2"
    show "resample bo rl r s = Some z"
    proof (cases "r < rl")
      case True
      with step have "f mb bo rl (fst (libsrng_random_halfword_via mb bo s))
                        (snd (libsrng_random_halfword_via mb bo s)) = Some z"
        by simp
      then have "resample bo rl (fst (libsrng_random_halfword_via mb bo s))
                   (snd (libsrng_random_halfword_via mb bo s)) = Some z"
        using IH agree by blast
      then have "resample bo rl (fst (libsrng_random_halfword bo s))
                   (snd (libsrng_random_halfword bo s)) = Some z"
        by (simp only: libsrng_random_halfword_via_eq [OF agree])
      with True show ?thesis by (subst resample.simps) simp
    next
      case False
      with step have "z = (r, s)" by simp
      with False show ?thesis by (subst resample.simps) simp
    qed
  qed
qed

lemma resample_Some_via:
  assumes orig: "resample bo rl r s = Some z"
  shows "same_at_width mb bo 2 \<longrightarrow> resample_via mb bo rl r s = Some z"
proof (rule resample.raw_induct
    [where P = "\<lambda>bo rl r s z. same_at_width mb bo 2 \<longrightarrow> resample_via mb bo rl r s = Some z",
      OF _ orig])
  fix f bo rl r s z
  assume IH: "\<And>bo rl r s z. f bo rl r s = Some z \<Longrightarrow>
                same_at_width mb bo 2 \<longrightarrow> resample_via mb bo rl r s = Some z"
    and step: "(if r < rl
                then f bo rl (fst (libsrng_random_halfword bo s))
                       (snd (libsrng_random_halfword bo s))
                else Some (r, s)) = Some z"
  show "same_at_width mb bo 2 \<longrightarrow> resample_via mb bo rl r s = Some z"
  proof
    assume agree: "same_at_width mb bo 2"
    show "resample_via mb bo rl r s = Some z"
    proof (cases "r < rl")
      case True
      with step have "f bo rl (fst (libsrng_random_halfword bo s))
                        (snd (libsrng_random_halfword bo s)) = Some z"
        by simp
      then have "resample_via mb bo rl (fst (libsrng_random_halfword bo s))
                   (snd (libsrng_random_halfword bo s)) = Some z"
        using IH agree by blast
      then have "resample_via mb bo rl (fst (libsrng_random_halfword_via mb bo s))
                   (snd (libsrng_random_halfword_via mb bo s)) = Some z"
        by (simp only: libsrng_random_halfword_via_eq [OF agree])
      with True show ?thesis by (subst resample_via.simps) simp
    next
      case False
      with step have "z = (r, s)" by simp
      with False show ?thesis by (subst resample_via.simps) simp
    qed
  qed
qed

lemma resample_via_eq:
  assumes "same_at_width mb bo 2"
  shows "resample_via mb bo rl result state = resample bo rl result state"
proof (cases "resample bo rl result state")
  case None
  show ?thesis
  proof (cases "resample_via mb bo rl result state")
    case None
    with \<open>resample bo rl result state = None\<close> show ?thesis by simp
  next
    case (Some y)
    with assms resample_via_Some [of mb bo rl result state y]
    have "resample bo rl result state = Some y" by blast
    with None show ?thesis by simp
  qed
next
  case (Some y)
  with assms resample_Some_via [of bo rl result state y mb]
  have "resample_via mb bo rl result state = Some y" by blast
  with Some show ?thesis by simp
qed

lemma libsrng_random_range_via_eq:
  assumes "same_at_width mb bo 2"
  shows "libsrng_random_range_via mb bo state limit = libsrng_random_range bo state limit"
  by (simp only: libsrng_random_range_via_def libsrng_random_range_def
      libsrng_random_halfword_via_eq [OF assms] resample_via_eq [OF assms])

lemma reseed_loop_via_eq:
  assumes "same_at_width mb bo 2" and "same_at_width mb bo 8"
  shows "reseed_loop_via mb bo n state = reseed_loop bo n state"
  by (induction n arbitrary: state) (simp_all add: libsrng_random_seed_via_eq [OF assms])

lemma libsrng_random_via_eq:
  assumes "same_at_width mb bo 2" and "same_at_width mb bo 8"
  shows "libsrng_random_via mb bo st limit n = libsrng_random bo st limit n"
  by (cases st)
     (simp_all add: libsrng_random_range_via_eq [OF assms(1)] reseed_loop_via_eq [OF assms])

lemma multibyte_width_1:
  "libsrng_random_combined_multibyte bo state 1 =
     (ucast (fst (libsrng_random_combined bo state)), snd (libsrng_random_combined bo state))"
  by (simp add: libsrng_random_combined_multibyte_def split: prod.splits)

section \<open>The claims\<close>

text \<open>
  Claim C2 (reseed, then one range reduction). With limit 1 and reseed count \<open>n\<close>,
  \<^verbatim>\<open>libsrng_random\<close> returns 0 and leaves in the register the value obtained by applying
  \<^verbatim>\<open>libsrng_random_seed\<close> \<open>n\<close> times to the original register, each application replacing the
  register by the value returned. For any limit, the call is the range reducer applied once to
  that register.
\<close>

theorem reseed_then_range:
  "libsrng_random bo (Some r) 1 n =
     Some (0, Some (((\<lambda>s. fst (libsrng_random_seed bo s)) ^^ n) r)) \<and>
   libsrng_random bo (Some r) limit n =
     map_option (\<lambda>(v, s). (v, Some s))
       (libsrng_random_range bo (((\<lambda>s. fst (libsrng_random_seed bo s)) ^^ n) r) limit)"
proof -
  have loop: "reseed_loop bo n r = ((\<lambda>s. fst (libsrng_random_seed bo s)) ^^ n) r"
    by (rule reseed_loop_funpow)
  have one: "libsrng_random_range bo state 1 = Some (0, state)" for state
    by (simp add: libsrng_random_range_def)
  have "libsrng_random bo (Some r) 1 n = Some (0, Some (reseed_loop bo n r))"
    by (simp add: one)
  moreover have "libsrng_random bo (Some r) limit n =
      map_option (\<lambda>(v, s). (v, Some s)) (libsrng_random_range bo (reseed_loop bo n r) limit)"
    by simp
  ultimately show ?thesis by (simp only: loop)
qed

text \<open>
  Claim C3 (full width and powers of two), as the code has it. With limit 0 and no reseed,
  \<^verbatim>\<open>libsrng_random\<close> returns the draw of \<^verbatim>\<open>libsrng_random_halfword\<close> and leaves the register
  as that call leaves it. With a limit \<open>2 ^ k\<close> for \<open>0 < k < 16\<close> it returns the draw masked
  with \<open>limit - 1\<close> and leaves the register as the call leaves it. With limit 1, which is
  \<open>2 ^ 0\<close>, the value is still the draw masked with \<open>limit - 1\<close>, namely 0, but no draw is
  made and the register keeps its value.
\<close>

theorem power_of_two_limit_masks_halfword:
  assumes "0 < k" and "k < 16"
  shows "libsrng_random bo (Some r) 0 0 =
           Some (fst (libsrng_random_halfword bo r), Some (snd (libsrng_random_halfword bo r))) \<and>
         libsrng_random bo (Some r) (2 ^ k) 0 =
           Some (fst (libsrng_random_halfword bo r) AND (2 ^ k - 1),
                 Some (snd (libsrng_random_halfword bo r))) \<and>
         libsrng_random bo (Some r) 1 0 =
           Some (fst (libsrng_random_halfword bo r) AND (1 - 1), Some r)"
  using pow2_neq_1 [OF assms]
  by (simp add: libsrng_random_range_def pow2_and_pred split: prod.splits)

theorem power_of_two_limit_masks_halfword_witness:
  "(0 :: nat) < 3 \<and> (3 :: nat) < 16 \<and>
   libsrng_random LittleEndian (Some 0) 0 0 = Some (21041, Some 0x2a9a5d144180bd78) \<and>
   libsrng_random LittleEndian (Some 0) 8 0 = Some (1, Some 0x2a9a5d144180bd78) \<and>
   libsrng_random LittleEndian (Some 0) 1 0 = Some (0, Some 0)"
  using power_of_two_limit_masks_halfword [of 3 LittleEndian 0]
  by (simp add: libsrng_random_halfword_0)

text \<open>
  The claim as it is written also covers the limit 1, a power of two. There the register is
  not advanced as by a call of \<^verbatim>\<open>libsrng_random_halfword\<close>: from the register 0 that call
  leaves \<open>0x2a9a5d144180bd78\<close>, and \<^verbatim>\<open>libsrng_random\<close> leaves 0.
\<close>

theorem limit_one_draws_nothing:
  "libsrng_random LittleEndian (Some 0) 1 0 \<noteq>
     Some (fst (libsrng_random_halfword LittleEndian 0) AND (1 - 1),
           Some (snd (libsrng_random_halfword LittleEndian 0)))"
  by (simp add: libsrng_random_range_def libsrng_random_halfword_0)

text \<open>
  Claim C4 (the combine step), as the code has it. The offset at which the byte of \<open>shift\<close>
  is taken is 8 times the value of bits 6 and 7 of \<open>linear\<close> (\<open>linear div 64\<close>), hence one of
  0, 8, 16, 24; the operator is selected by bits 4 and 5 of \<open>linear\<close> (\<open>linear div 16 mod 4\<close>):
  0 adds, 1 takes the exclusive or, 2 subtracts \<open>current\<close> from the byte, 3 subtracts the byte
  from \<open>current\<close>. The result is the byte combined with \<open>current\<close> in 8 bits.
\<close>

theorem combine_bit_fields:
  "combine_offset (linear s) = 8 * (unat (linear s) div 64) \<and>
   combine_offset (linear s) \<in> {0, 8, 16, 24} \<and>
   unat (combine_selector (linear s)) = unat (linear s) div 16 mod 4 \<and>
   combine s =
     (let b = (ucast (drop_bit (combine_offset (linear s)) (shift s)) :: u8);
          sel = combine_selector (linear s)
      in if sel = 0 then b + current s
         else if sel = 1 then b XOR current s
         else if sel = 2 then b - current s
         else current s - b)"
proof -
  have "combine s =
     (let b = (ucast (drop_bit (combine_offset (linear s)) (shift s)) :: u8);
          sel = combine_selector (linear s)
      in if sel = 0 then b + current s
         else if sel = 1 then b XOR current s
         else if sel = 2 then b - current s
         else current s - b)"
    by (simp add: combine_offset_eq [symmetric] combine_eq combine_selector_def Let_def)
  with combine_offset_cases [of "linear s"] combine_offset_div [of "linear s"]
    combine_selector_div [of "linear s"]
  show ?thesis by (intro conjI)
qed

text \<open>
  The claim as it is written takes the offset from bits 3 and 4 of \<open>linear\<close> and the operator
  from the two bits after them. The two calls of \<^verbatim>\<open>libsrng_stable_random\<close> below start from
  sub-states that differ in bit 7 of \<open>linear\<close> only. They reach the combine step with the same
  \<open>shift\<close> and \<open>current\<close> and with values of \<open>linear\<close>, 0 and 128, that agree on bits 3 to 6
  (as the values 203 and 75 before the call do). The first call returns the byte of \<open>shift\<close>
  at offset 0 plus \<open>current\<close>, the second the byte at offset 16 plus \<open>current\<close>.
\<close>

theorem combine_differs_on_equal_bits_3_to_6:
  "libsrng_stable_random \<lparr>shift = 1, carry = 3, current = 7, prev = 5, linear = 203\<rparr> =
     (30, \<lparr>shift = 0x201, carry = 4, current = 29, prev = 7, linear = 0x00\<rparr>) \<and>
   libsrng_stable_random \<lparr>shift = 1, carry = 3, current = 7, prev = 5, linear = 75\<rparr> =
     (29, \<lparr>shift = 0x201, carry = 4, current = 29, prev = 7, linear = 0x80\<rparr>) \<and>
   combine \<lparr>shift = 0x201, carry = 4, current = 29, prev = 7, linear = 0x00\<rparr> = 30 \<and>
   combine \<lparr>shift = 0x201, carry = 4, current = 29, prev = 7, linear = 0x80\<rparr> = 29 \<and>
   drop_bit 3 (0x00 :: u8) AND 15 = drop_bit 3 (0x80 :: u8) AND 15 \<and>
   drop_bit 3 (203 :: u8) AND 15 = drop_bit 3 (75 :: u8) AND 15"
proof -
  have a: "libsrng_stable_random \<lparr>shift = 1, carry = 3, current = 7, prev = 5, linear = 203\<rparr> =
     (30, \<lparr>shift = 0x201, carry = 4, current = 29, prev = 7, linear = 0x00\<rparr>)"
    by code_simp
  have b: "libsrng_stable_random \<lparr>shift = 1, carry = 3, current = 7, prev = 5, linear = 75\<rparr> =
     (29, \<lparr>shift = 0x201, carry = 4, current = 29, prev = 7, linear = 0x80\<rparr>)"
    by code_simp
  have c: "combine \<lparr>shift = 0x201, carry = 4, current = 29, prev = 7, linear = 0x00\<rparr> = 30"
    by (simp add: combine_def combine_offset_def combine_selector_def)
  have d: "combine \<lparr>shift = 0x201, carry = 4, current = 29, prev = 7, linear = 0x80\<rparr> = 29"
    by (simp add: combine_def combine_offset_def combine_selector_def)
  have e: "drop_bit 3 (0x00 :: u8) AND 15 = drop_bit 3 (0x80 :: u8) AND 15" by simp
  have f: "drop_bit 3 (203 :: u8) AND 15 = drop_bit 3 (75 :: u8) AND 15" by simp
  from a b c d e f show ?thesis by (intro conjI)
qed

text \<open>
  Claim C6 (the two branches of the byte adapter). On the little-endian layout, where the guard
  of the first branch holds, reading the register through the overlaid structure returns the
  same byte and leaves the same register as unpacking and repacking it with shifts; on the
  big-endian layout the guard fails; so on either layout \<^verbatim>\<open>libsrng_random_combined\<close> is the
  portable branch. The fields of the unpacked register are bits 0 to 31 (\<open>shift\<close>), 32 to 39
  (\<open>carry\<close>), 40 to 47 (\<open>current\<close>), 48 to 55 (\<open>prev\<close>) and 56 to 63 (\<open>linear\<close>).
\<close>

theorem overlay_branch_equals_portable_branch:
  "combined_overlay LittleEndian state = combined_portable state \<and>
   overlay_valid LittleEndian \<and> \<not> overlay_valid BigEndian \<and>
   libsrng_random_combined bo state = combined_portable state \<and>
   (\<forall>n. bit (shift (unpack_state state)) n \<longleftrightarrow> n < 32 \<and> bit state n) \<and>
   (\<forall>n. bit (carry (unpack_state state)) n \<longleftrightarrow> n < 8 \<and> bit state (32 + n)) \<and>
   (\<forall>n. bit (current (unpack_state state)) n \<longleftrightarrow> n < 8 \<and> bit state (40 + n)) \<and>
   (\<forall>n. bit (prev (unpack_state state)) n \<longleftrightarrow> n < 8 \<and> bit state (48 + n)) \<and>
   (\<forall>n. bit (linear (unpack_state state)) n \<longleftrightarrow> n < 8 \<and> bit state (56 + n))"
  by (simp add: combined_overlay_little overlay_valid_little overlay_valid_big
      libsrng_random_combined_portable unpack_state_def bit_simps)

text \<open>
  Claim C7 (the trigger states). \<^verbatim>\<open>libsrng_random_halfword\<close> first passes the register through
  the loop over the trigger states and only then draws bytes. The loop sends the first trigger
  state to the second, the second to the third and the third to the first, and leaves every
  other register as it is.
\<close>

theorem switch_trigger_cycle:
  "SWITCH_TRIGGER_STATE_0 = 0x3243F6A8885A308D \<and>
   SWITCH_TRIGGER_STATE_1 = 0x2B7E151628AED2A6 \<and>
   SWITCH_TRIGGER_STATE_2 = 0x19E3779B97F4A7C1 \<and>
   switch_trigger 0 SWITCH_TRIGGER_STATE_0 = SWITCH_TRIGGER_STATE_1 \<and>
   switch_trigger 0 SWITCH_TRIGGER_STATE_1 = SWITCH_TRIGGER_STATE_2 \<and>
   switch_trigger 0 SWITCH_TRIGGER_STATE_2 = SWITCH_TRIGGER_STATE_0 \<and>
   (state \<notin> {SWITCH_TRIGGER_STATE_0, SWITCH_TRIGGER_STATE_1, SWITCH_TRIGGER_STATE_2}
      \<longrightarrow> switch_trigger 0 state = state) \<and>
   libsrng_random_halfword bo state = halfword_draw bo (switch_trigger 0 state)"
  by (simp add: switch_trigger_unfold libsrng_random_halfword_def)
     (simp add: SWITCH_TRIGGER_STATE_0_def SWITCH_TRIGGER_STATE_1_def SWITCH_TRIGGER_STATE_2_def)

theorem switch_trigger_cycle_witness:
  "(0 :: u64) \<notin> {SWITCH_TRIGGER_STATE_0, SWITCH_TRIGGER_STATE_1, SWITCH_TRIGGER_STATE_2} \<and>
   switch_trigger 0 0 = 0 \<and>
   switch_trigger 0 0x3243F6A8885A308D = 0x2B7E151628AED2A6 \<and>
   switch_trigger 0 0x2B7E151628AED2A6 = 0x19E3779B97F4A7C1 \<and>
   switch_trigger 0 0x19E3779B97F4A7C1 = 0x3243F6A8885A308D"
  using switch_trigger_cycle [of 0 LittleEndian]
  by (simp add: SWITCH_TRIGGER_STATE_0_def SWITCH_TRIGGER_STATE_1_def SWITCH_TRIGGER_STATE_2_def)

text \<open>
  Claim C9 (the shift register stays nonzero). After every call of \<^verbatim>\<open>libsrng_stable_random\<close>
  the field \<open>shift\<close> is not zero: the four refilling steps leave a nonzero value, so the value
  after the lazy initialisation is not zero whatever the state was, and the xorshift triple
  returns zero for zero only.
\<close>

theorem shift_nonzero_after_call:
  "shift (snd (libsrng_stable_random s)) \<noteq> 0 \<and>
   shift (refill_shift 4 s) \<noteq> 0 \<and>
   shift (init_shift s) \<noteq> 0 \<and>
   (xorshift x = 0 \<longleftrightarrow> x = 0)"
  by (simp add: shift_after_nonzero refill_shift_4_nonzero shift_init_shift_nonzero
      xorshift_eq_0_iff)

text \<open>
  Claim C10 (the width guard). For a width above 8, \<^verbatim>\<open>libsrng_random_combined_multibyte\<close>
  returns the value with all 64 bits set and leaves the register as it was, without drawing a
  byte. The public entry does not reach that branch: \<^verbatim>\<open>libsrng_random\<close> gives the same
  result and leaves the same register when the assembler is replaced by any function that
  agrees with it on the calls with widths 2 and 8, whatever that function does for other
  widths. Calls with these two widths run the byte loop. The remaining width of the claim,
  1, is the control byte of \<^verbatim>\<open>libsrng_random_halfword\<close>: it is drawn by
  \<^verbatim>\<open>libsrng_random_combined\<close> without the assembler, and is the byte the assembler would
  return for the width 1.
\<close>

theorem multibyte_width_guard:
  assumes "8 < unat width"
  shows "libsrng_random_combined_multibyte bo state width = (- 1, state) \<and>
         unat (- 1 :: u64) = 2 ^ 64 - 1 \<and>
         (same_at_width mb bo 2 \<and> same_at_width mb bo 8 \<longrightarrow>
            libsrng_random_via mb bo st limit n = libsrng_random bo st limit n) \<and>
         libsrng_random_combined_multibyte bo state 2 = combined_loop bo 2 0 state \<and>
         libsrng_random_combined_multibyte bo state 8 = combined_loop bo 8 0 state \<and>
         libsrng_random_combined_multibyte bo state 1 =
           (ucast (fst (libsrng_random_combined bo state)),
            snd (libsrng_random_combined bo state))"
proof -
  have guard: "libsrng_random_combined_multibyte bo state width = (- 1, state)"
    using assms by (simp add: libsrng_random_combined_multibyte_def)
  have ones: "unat (- 1 :: u64) = 2 ^ 64 - 1"
    by (simp add: unsigned_minus_1_eq_mask mask_eq_exp_minus_1)
  have entry: "same_at_width mb bo 2 \<and> same_at_width mb bo 8 \<longrightarrow>
      libsrng_random_via mb bo st limit n = libsrng_random bo st limit n"
    using libsrng_random_via_eq [of mb bo st limit n] by blast
  have two: "libsrng_random_combined_multibyte bo state 2 = combined_loop bo 2 0 state"
    by (simp add: libsrng_random_combined_multibyte_def)
  have eight: "libsrng_random_combined_multibyte bo state 8 = combined_loop bo 8 0 state"
    by (simp add: libsrng_random_combined_multibyte_def)
  from guard ones entry two eight multibyte_width_1 [of bo state]
  show ?thesis by (intro conjI)
qed

theorem multibyte_width_guard_witness:
  "8 < unat (9 :: u8) \<and>
   libsrng_random_combined_multibyte LittleEndian 0 9 = (0xFFFFFFFFFFFFFFFF, 0) \<and>
   libsrng_random_via
     (\<lambda>state width. if 8 < unat width then (0, 0)
                     else libsrng_random_combined_multibyte LittleEndian state width)
     LittleEndian (Some 0) 10 0 = Some (1, Some 0x2a9a5d144180bd78)"
proof -
  define mb :: "u64 \<Rightarrow> u8 \<Rightarrow> u64 \<times> u64" where
    "mb = (\<lambda>state width. if 8 < unat width then (0, 0)
                           else libsrng_random_combined_multibyte LittleEndian state width)"
  have w: "8 < unat (9 :: u8)" by simp
  have a2: "same_at_width mb LittleEndian 2" by (simp add: same_at_width_def mb_def)
  have a8: "same_at_width mb LittleEndian 8" by (simp add: same_at_width_def mb_def)
  note t = multibyte_width_guard [OF w, of LittleEndian 0 mb "Some 0" 10 0]
  from t have g: "libsrng_random_combined_multibyte LittleEndian 0 9 = (0xFFFFFFFFFFFFFFFF, 0)"
    by simp
  from t a2 a8 have "libsrng_random_via mb LittleEndian (Some 0) 10 0 =
      libsrng_random LittleEndian (Some 0) 10 0" by blast
  then have e: "libsrng_random_via mb LittleEndian (Some 0) 10 0 =
      Some (1, Some 0x2a9a5d144180bd78)"
    by (simp add: libsrng_random_range_0_10)
  from w g e show ?thesis unfolding mb_def by (intro conjI)
qed

end
